theory Spec2Isabelle
  imports Main "HOL-Library.Sublist"
begin

section \<open>Python strings and integers\<close>

text \<open>
  Strings are lists of characters, and a character is a code point from 0 to 255; a
  text with a code point above 255 is outside this type.  \<open>lower\<close> is \<^verbatim>\<open>str.lower()\<close>:
  within these code points it moves the letters 65 to 90 and the letters 192 to 222
  other than 215 up by 32 and leaves the rest.  \<open>contains needle s\<close> is
  \<^verbatim>\<open>needle in s\<close>.  \<open>rstrip\<close> is \<^verbatim>\<open>str.rstrip()\<close>; \<open>is_space\<close> is \<^verbatim>\<open>str.isspace()\<close> on one
  character, true within these code points for 9 to 13, 28 to 32, 133 and 160.
  \<open>join_sp\<close> is \<^verbatim>\<open>' '.join(xs)\<close> and \<open>show_int\<close> is the decimal text that an f-string
  prints for an \<^verbatim>\<open>int\<close>.
\<close>

definition char_lower :: "char \<Rightarrow> char" where
  "char_lower c = (let n = (of_char c :: nat) in
     if (65 \<le> n \<and> n \<le> 90) \<or> (192 \<le> n \<and> n \<le> 222 \<and> n \<noteq> 215)
     then char_of (n + 32) else c)"

definition lower :: "string \<Rightarrow> string" where
  "lower s = map char_lower s"

fun contains :: "string \<Rightarrow> string \<Rightarrow> bool" where
  "contains needle [] = (needle = [])"
| "contains needle (c # cs) = (prefix needle (c # cs) \<or> contains needle cs)"

definition is_space :: "char \<Rightarrow> bool" where
  "is_space c = (let n = (of_char c :: nat) in
     (9 \<le> n \<and> n \<le> 13) \<or> (28 \<le> n \<and> n \<le> 32) \<or> n = 133 \<or> n = 160)"

definition rstrip :: "string \<Rightarrow> string" where
  "rstrip s = rev (dropWhile is_space (rev s))"


fun show_nat :: "nat \<Rightarrow> string" where
  "show_nat n = (if n < 10 then [char_of (48 + n)]
     else show_nat (n div 10) @ [char_of (48 + n mod 10)])"

declare show_nat.simps [simp del]

definition show_int :: "int \<Rightarrow> string" where
  "show_int i = (if i < 0 then CHR ''-'' # show_nat (nat (- i)) else show_nat (nat i))"



section \<open>Python dictionaries\<close>

text \<open>
  A \<^verbatim>\<open>dict\<close> keeps its keys in insertion order, so it is an association list with
  distinct keys.  \<open>dict_set\<close> is \<^verbatim>\<open>d[k] = v\<close>: an existing key keeps its place and gets the
  new value, a new key goes to the end.  \<open>dict_del\<close> is \<^verbatim>\<open>del d[k]\<close> once the key is known
  to be present; where the source deletes without a test, the model tests and has a
  \<open>KeyError\<close> branch.
\<close>

fun dict_set :: "'k \<Rightarrow> 'v \<Rightarrow> ('k \<times> 'v) list \<Rightarrow> ('k \<times> 'v) list" where
  "dict_set k v [] = [(k, v)]"
| "dict_set k v (p # ps) = (if fst p = k then (k, v) # ps else p # dict_set k v ps)"

definition dict_del :: "'k \<Rightarrow> ('k \<times> 'v) list \<Rightarrow> ('k \<times> 'v) list" where
  "dict_del k d = filter (\<lambda>p. fst p \<noteq> k) d"

definition dict_keys :: "('k \<times> 'v) list \<Rightarrow> 'k list" where
  "dict_keys d = map fst d"

definition dict_has :: "'k \<Rightarrow> ('k \<times> 'v) list \<Rightarrow> bool" where
  "dict_has k d = (k \<in> set (map fst d))"

section \<open>The global state\<close>

text \<open>
  An entry of \<^verbatim>\<open>state.processes\<close>: the \<^verbatim>\<open>Popen\<close> object (identified by the pid it
  holds), the command text and the kind tag.
\<close>

record proc_entry =
  process :: int
  cmd :: string
  ptype :: string

text \<open>\<^verbatim>\<open>class TerminalState\<close>, lines 29 to 36.\<close>

record terminal_state =
  current_dir :: string
  processes :: "(int \<times> proc_entry) list"
  command_history :: "string list"
  logs :: "string list"
  upload_dir :: string

section \<open>The operating system\<close>

text \<open>
  The program talks to the clock, to \<^verbatim>\<open>subprocess\<close>, to \<^verbatim>\<open>psutil\<close> and to \<^verbatim>\<open>os.kill\<close>.
  The world is the history of these calls, oldest first, and an \<open>os\<close> is any
  deterministic environment: each answer is a function of the history so far and of the
  arguments of the call.  Every call appends its event, so what the program did to the
  machine can be read off the history.
\<close>

datatype signal = SIGINT | SIGTSTP

datatype os_call =
    Now
  | Spawn "string list" string
  | Readline int
  | Wait int
  | PsProcess int
  | PsChildren int
  | PsKill int
  | PsIsRunning int
  | PsCreateTime int
  | PsProcessIter
  | OsKill int signal

type_synonym history = "os_call list"

text \<open>
  What \<^verbatim>\<open>psutil\<close> raises: \<^verbatim>\<open>NoSuchProcess\<close>, or any other exception with its text.
\<close>

datatype ps_exc = NoSuchProcess | OtherExc string

text \<open>
  How a \<^verbatim>\<open>kill()\<close> on a process object ends for its caller: the signal was sent and
  the call returned, the call raised, or the signal struck the service itself (its own
  process, or one whose death takes it along), and then the caller runs no further:
  the call never returns.
\<close>

datatype kill_result = KillSent | KillRaised ps_exc | KillEndsService

text \<open>One process of the system-wide scan, with the fields the program reads.\<close>

record scanned =
  s_pid :: int
  s_name :: "string option"
  s_cmdline :: "string list option"

text \<open>
  \<open>now\<close> is \<^verbatim>\<open>datetime.now().strftime("%H:%M:%S")\<close>.
  \<open>spawn h argv cwd\<close> starts the program \<open>hd argv\<close> in directory \<open>cwd\<close>: the text of the
  exception, or the new pid.
  \<open>readline h pid\<close> reads the next line of the child's merged output: the text of an
  exception, or the line, empty at the end of the stream.
  \<open>wait h pid\<close> is the return code that \<^verbatim>\<open>process.wait()\<close> stores.
  \<open>ps_process\<close> is \<^verbatim>\<open>psutil.Process(pid)\<close>, with \<open>None\<close> for success, \<open>ps_children\<close>
  is \<^verbatim>\<open>children(recursive=True)\<close> and \<open>ps_kill\<close> is \<^verbatim>\<open>kill()\<close> on a process object.  \<open>ps_create_time\<close> is the start time already formatted.
  \<open>process_iter\<close> is the list of processes that \<^verbatim>\<open>psutil.process_iter\<close> yields; on a
  real machine the service itself is one of them.
  \<open>os_kill\<close> is \<^verbatim>\<open>os.kill(pid, sig)\<close>, \<open>Some\<close> the text of its exception.
\<close>

record os =
  unix_shell :: string
  now :: "history \<Rightarrow> string"
  spawn :: "history \<Rightarrow> string list \<Rightarrow> string \<Rightarrow> string + int"
  readline :: "history \<Rightarrow> int \<Rightarrow> string + string"
  wait :: "history \<Rightarrow> int \<Rightarrow> int"
  ps_process :: "history \<Rightarrow> int \<Rightarrow> ps_exc option"
  ps_children :: "history \<Rightarrow> int \<Rightarrow> ps_exc + int list"
  ps_kill :: "history \<Rightarrow> int \<Rightarrow> kill_result"
  ps_is_running :: "history \<Rightarrow> int \<Rightarrow> bool"
  ps_create_time :: "history \<Rightarrow> int \<Rightarrow> ps_exc + string"
  process_iter :: "history \<Rightarrow> scanned list"
  os_kill :: "history \<Rightarrow> int \<Rightarrow> signal \<Rightarrow> string option"

text \<open>The program state and the world it runs in.\<close>

type_synonym sys = "terminal_state \<times> history"

section \<open>Utility functions\<close>

text \<open>
  \<^verbatim>\<open>state.logs[-1000:]\<close> on a list: its last 1000 elements, all of it when it is shorter.
\<close>

definition last_n :: "nat \<Rightarrow> 'a list \<Rightarrow> 'a list" where
  "last_n n xs = drop (length xs - n) xs"

text \<open>\<^verbatim>\<open>log_message\<close>, lines 41 to 48.  The \<^verbatim>\<open>print\<close> is not modelled.\<close>

definition log_message :: "os \<Rightarrow> string \<Rightarrow> string \<Rightarrow> sys \<Rightarrow> string \<times> sys" where
  "log_message e msg level s =
    (let st = fst s; h = snd s;
         timestamp = now e h;
         log_entry = ''['' @ timestamp @ ''] ['' @ level @ ''] '' @ msg;
         logs1 = logs st @ [log_entry];
         logs2 = (if length logs1 > 1000 then last_n 1000 logs1 else logs1)
     in (log_entry, (st\<lparr>logs := logs2\<rparr>, h @ [Now])))"

text \<open>The line feed that ends every chunk.\<close>

definition nl :: string where
  "nl = [CHR 0x0A]"

text \<open>
  \<^verbatim>\<open>kill_process_tree\<close>, lines 50 to 72.  Its result is \<open>Some\<close> of the value returned,
  or \<open>None\<close> when one of its own \<^verbatim>\<open>kill()\<close> calls struck the service: then the call
  never returns and the second component is the state and history at that moment.
  \<open>try_kill\<close> is a \<^verbatim>\<open>kill()\<close> inside \<^verbatim>\<open>try: ... except: pass\<close>: the call is made, an
  exception is dropped, and the flag tells whether the caller is still running.
  \<open>kill_children\<close> is the loop of lines 56 to 60.  \<open>kill_failed\<close> is the pair of handlers
  of lines 68 to 72, entered from \<^verbatim>\<open>psutil.Process(pid)\<close> or from
  \<^verbatim>\<open>parent.children(recursive=True)\<close>, the two calls of the outer \<^verbatim>\<open>try\<close> that can raise.
\<close>

definition try_kill :: "os \<Rightarrow> int \<Rightarrow> history \<Rightarrow> bool \<times> history" where
  "try_kill e p h = (case ps_kill e h p of
       KillSent \<Rightarrow> (True, h @ [PsKill p])
     | KillRaised x \<Rightarrow> (True, h @ [PsKill p])
     | KillEndsService \<Rightarrow> (False, h @ [PsKill p]))"

fun kill_children :: "os \<Rightarrow> int list \<Rightarrow> history \<Rightarrow> bool \<times> history" where
  "kill_children e [] h = (True, h)"
| "kill_children e (child # children) h =
    (let r = try_kill e child h in
     if fst r then kill_children e children (snd r) else r)"

definition kill_failed :: "os \<Rightarrow> int \<Rightarrow> ps_exc \<Rightarrow> sys \<Rightarrow> bool option \<times> sys" where
  "kill_failed e pid x s = (case x of
       NoSuchProcess \<Rightarrow> (Some False, s)
     | OtherExc t \<Rightarrow>
         (Some False,
          snd (log_message e (''Error killing process '' @ show_int pid @ '': '' @ t)
                 ''ERROR'' s)))"

definition kill_process_tree :: "os \<Rightarrow> int \<Rightarrow> sys \<Rightarrow> bool option \<times> sys" where
  "kill_process_tree e pid s =
    (let st = fst s; h = snd s; h1 = h @ [PsProcess pid] in
     case ps_process e h pid of
       Some x \<Rightarrow> kill_failed e pid x (st, h1)
     | None \<Rightarrow>
        (let h2 = h1 @ [PsChildren pid] in
         case ps_children e h1 pid of
           Inl x \<Rightarrow> kill_failed e pid x (st, h2)
         | Inr children \<Rightarrow>
            (let r3 = kill_children e children h2 in
             if fst r3 then
               (let r4 = try_kill e pid (snd r3) in
                if fst r4 then (Some True, (st, snd r4)) else (None, (st, snd r4)))
             else (None, (st, snd r3)))))"

text \<open>\<^verbatim>\<open>get_all_processes\<close>, lines 74 to 95: the snapshot of the registry.\<close>

record proc_view =
  v_pid :: int
  v_cmd :: string
  v_status :: string
  v_start_time :: string
  v_type :: string

fun get_all_processes_loop ::
  "os \<Rightarrow> (int \<times> proc_entry) list \<Rightarrow> history \<Rightarrow> proc_view list \<times> history" where
  "get_all_processes_loop e [] h = ([], h)"
| "get_all_processes_loop e ((pid, info) # items) h =
    (let dead = \<lparr>v_pid = pid, v_cmd = cmd info, v_status = ''dead'',
                  v_start_time = ''unknown'', v_type = ptype info\<rparr>;
         h1 = h @ [PsProcess pid];
         h2 = h1 @ [PsIsRunning pid];
         h3 = h2 @ [PsCreateTime pid];
         r = (case ps_process e h pid of
                Some x \<Rightarrow> (dead, h1)
              | None \<Rightarrow>
                 (case ps_create_time e h2 pid of
                    Inl x \<Rightarrow> (dead, h3)
                  | Inr t \<Rightarrow>
                     (\<lparr>v_pid = pid, v_cmd = cmd info,
                       v_status = (if ps_is_running e h1 pid then ''running'' else ''dead''),
                       v_start_time = t, v_type = ptype info\<rparr>, h3)));
         rest = get_all_processes_loop e items (snd r)
     in (fst r # fst rest, snd rest))"

definition get_all_processes :: "os \<Rightarrow> sys \<Rightarrow> proc_view list \<times> sys" where
  "get_all_processes e s =
     (let r = get_all_processes_loop e (processes (fst s)) (snd s) in (fst r, (fst s, snd r)))"

text \<open>
  \<^verbatim>\<open>execute_command_stream\<close>, lines 97 to 134, is a generator.  A \<open>gen\<close> is the place
  where it is suspended, with the local variables that are live there: not yet started
  (with its arguments), at the \<^verbatim>\<open>yield\<close> of line 123 inside the loop, at the \<^verbatim>\<open>yield\<close> of
  line 131, at the \<^verbatim>\<open>yield\<close> of line 134, or finished.  \<open>gen_next\<close> is one \<^verbatim>\<open>next()\<close>: it
  runs the body from that place to the next \<^verbatim>\<open>yield\<close> (\<open>Some chunk\<close>) or to the end
  (\<open>None\<close>), on the state and history of that moment, so that other requests may change
  the registry between two chunks.

  \<^verbatim>\<open>Popen(cmd, shell=True, cwd=cwd, ...)\<close> starts the shell with the arguments
  \<^verbatim>\<open>-c cmd\<close>; the command text is an argument of the shell, not the program started.
\<close>

datatype gen =
    Start string string
  | Reading int
  | AfterMarker int
  | AfterError
  | Finished

definition classify :: "string \<Rightarrow> string" where
  "classify c = (if contains ''python'' (lower c) then ''python'' else ''bash'')"

definition error_chunk :: "string \<Rightarrow> string" where
  "error_chunk x = ''Error executing command: '' @ x @ nl"

definition marker_chunk :: "int \<Rightarrow> string" where
  "marker_chunk rc = nl @ ''[Process completed with exit code: '' @ show_int rc @ '']'' @ nl"

text \<open>
  Lines 121 to 131 and the handler of line 133, from the head of the loop: one
  \<^verbatim>\<open>readline\<close>, then either the line is yielded, or at the end of the stream the child
  is waited for, the pid is removed if present and the marker is yielded.
\<close>

definition read_step :: "os \<Rightarrow> int \<Rightarrow> sys \<Rightarrow> string option \<times> gen \<times> sys" where
  "read_step e pid s =
    (let st = fst s; h = snd s; h1 = h @ [Readline pid] in
     case readline e h pid of
       Inl x \<Rightarrow> (Some (error_chunk x), AfterError, (st, h1))
     | Inr line \<Rightarrow>
        (if line \<noteq> [] then (Some (rstrip line @ nl), Reading pid, (st, h1))
         else
          (let returncode = wait e h1 pid;
               h2 = h1 @ [Wait pid];
               st1 = (if dict_has pid (processes st)
                      then st\<lparr>processes := dict_del pid (processes st)\<rparr> else st)
           in (Some (marker_chunk returncode), AfterMarker pid, (st1, h2)))))"

fun gen_next :: "os \<Rightarrow> gen \<Rightarrow> sys \<Rightarrow> string option \<times> gen \<times> sys" where
  "gen_next e (Start c cwd) s =
    (let s1 = snd (log_message e (''Executing: '' @ c) ''COMMAND'' s);
         argv = [unix_shell e, ''-c'', c];
         h2 = snd s1 @ [Spawn argv cwd] in
     case spawn e (snd s1) argv cwd of
       Inl x \<Rightarrow> (Some (error_chunk x), AfterError, (fst s1, h2))
     | Inr pid \<Rightarrow>
        (let info = \<lparr>process = pid, cmd = c, ptype = classify c\<rparr>;
             st2 = (fst s1)\<lparr>processes := dict_set pid info (processes (fst s1))\<rparr>
         in read_step e pid (st2, h2)))"
| "gen_next e (Reading pid) s = read_step e pid s"
| "gen_next e (AfterMarker pid) s = (None, Finished, s)"
| "gen_next e AfterError s = (None, Finished, s)"
| "gen_next e Finished s = (None, Finished, s)"

text \<open>
  The consumer of the stream (\<^verbatim>\<open>generate\<close> in \<^verbatim>\<open>api_execute\<close>, lines 152 to 156) calls
  \<^verbatim>\<open>next()\<close> until the generator ends.  A child that never closes its output never ends
  the stream, so the run has fuel: \<open>None\<close> means that the fuel ran out first.
\<close>

fun drain :: "os \<Rightarrow> nat \<Rightarrow> gen \<Rightarrow> sys \<Rightarrow> (string list \<times> sys) option" where
  "drain e 0 g s = None"
| "drain e (Suc n) g s =
    (case gen_next e g s of
       (None, g1, s1) \<Rightarrow> Some ([], s1)
     | (Some chunk, g1, s1) \<Rightarrow>
        (case drain e n g1 s1 of
           None \<Rightarrow> None
         | Some (chunks, s2) \<Rightarrow> Some (chunk # chunks, s2)))"

section \<open>Routes\<close>

text \<open>
  The body of a \<^verbatim>\<open>jsonify\<close> answer, and the exception of a \<^verbatim>\<open>del\<close> on an absent key,
  which no handler of the routes that use it catches.  A route that kills processes
  ends in one of three ways: it returns its answer, an exception leaves it uncaught, or
  a \<^verbatim>\<open>kill()\<close> it made struck the service, so that no answer is ever produced.
\<close>

record response =
  success :: bool
  message :: "string option"
  killed :: "int list option"






text \<open>
  \<^verbatim>\<open>api_stop_pid\<close>, lines 198 to 212, with the pid an integer.  Its answer is \<open>None\<close>
  when the \<^verbatim>\<open>kill_process_tree\<close> call never returned.
\<close>

definition api_stop_pid :: "os \<Rightarrow> int \<Rightarrow> sys \<Rightarrow> response option \<times> sys" where
  "api_stop_pid e pid s =
    (let r = kill_process_tree e pid s; st1 = fst (snd r); h1 = snd (snd r) in
     case fst r of
       None \<Rightarrow> (None, (st1, h1))
     | Some ok \<Rightarrow>
        (if ok then
           (Some \<lparr>success = True, message = Some (''Process '' @ show_int pid @ '' stopped''),
                  killed = None\<rparr>,
            ((if dict_has pid (processes st1)
              then st1\<lparr>processes := dict_del pid (processes st1)\<rparr> else st1), h1))
         else
           (Some \<lparr>success = False, message = Some (''Process '' @ show_int pid @ '' not found''),
                  killed = None\<rparr>,
            (st1, h1))))"





text \<open>
  \<^verbatim>\<open>api_ctrl\<close>, lines 242 to 259, with the key a string.  \<open>ctrl_loop\<close> is the loop of
  lines 249 to 257; an \<^verbatim>\<open>os.kill\<close> that raises skips the log entry of that pid.
\<close>

fun ctrl_loop :: "os \<Rightarrow> string \<Rightarrow> int list \<Rightarrow> sys \<Rightarrow> sys" where
  "ctrl_loop e key [] s = s"
| "ctrl_loop e key (pid # pids) s =
    (let msg = ''Sent Ctrl+'' @ key @ '' to process '' @ show_int pid in
     if key = ''C'' then
       (case os_kill e (snd s) pid SIGINT of
          Some x \<Rightarrow> ctrl_loop e key pids (fst s, snd s @ [OsKill pid SIGINT])
        | None \<Rightarrow> ctrl_loop e key pids
                   (snd (log_message e msg ''SIGNAL'' (fst s, snd s @ [OsKill pid SIGINT]))))
     else if key = ''Z'' then
       (case os_kill e (snd s) pid SIGTSTP of
          Some x \<Rightarrow> ctrl_loop e key pids (fst s, snd s @ [OsKill pid SIGTSTP])
        | None \<Rightarrow> ctrl_loop e key pids
                   (snd (log_message e msg ''SIGNAL'' (fst s, snd s @ [OsKill pid SIGTSTP]))))
     else ctrl_loop e key pids (snd (log_message e msg ''SIGNAL'' s)))"

definition api_ctrl :: "os \<Rightarrow> string \<Rightarrow> sys \<Rightarrow> response \<times> sys" where
  "api_ctrl e key s =
     (\<lparr>success = True, message = None, killed = None\<rparr>,
      ctrl_loop e key (dict_keys (processes (fst s))) s)"

section \<open>Observations on a history\<close>

text \<open>
  Each \<^verbatim>\<open>kill_process_tree(pid)\<close> starts with \<^verbatim>\<open>psutil.Process(pid)\<close> and makes that call
  once, and within the stop, kill and signal routes nothing else makes it: the pids of
  the \<open>PsProcess\<close> events are the calls of \<^verbatim>\<open>kill_process_tree\<close>, in order.  The \<open>PsKill\<close>
  events are the \<^verbatim>\<open>kill()\<close> calls made on process objects, the \<open>OsKill\<close> events the
  signals sent by \<^verbatim>\<open>os.kill\<close>.  A history \<open>ended_by_kill\<close> is one whose last event is
  a \<^verbatim>\<open>kill()\<close> that struck the service: nothing was run after it.
\<close>


fun kills_sent :: "history \<Rightarrow> int list" where
  "kills_sent [] = []"
| "kills_sent (PsKill pid # h) = pid # kills_sent h"
| "kills_sent (c # h) = kills_sent h"

definition ended_by_kill :: "os \<Rightarrow> history \<Rightarrow> bool" where
  "ended_by_kill e h = (h \<noteq> [] \<and> (case last h of
       PsKill q \<Rightarrow> ps_kill e (butlast h) q = KillEndsService
     | _ \<Rightarrow> False))"

fun kill_tree_calls :: "history \<Rightarrow> int list" where
  "kill_tree_calls [] = []"
| "kill_tree_calls (PsProcess pid # h) = pid # kill_tree_calls h"
| "kill_tree_calls (c # h) = kill_tree_calls h"

fun signals_sent :: "history \<Rightarrow> (int \<times> signal) list" where
  "signals_sent [] = []"
| "signals_sent (OsKill pid sg # h) = (pid, sg) # signals_sent h"
| "signals_sent (c # h) = signals_sent h"


text \<open>
  The log entries of the signal route for the pids, the clock first read at history
  \<open>h\<close> and once more for each further entry.
\<close>

fun sent_entries :: "os \<Rightarrow> string \<Rightarrow> int list \<Rightarrow> history \<Rightarrow> string list" where
  "sent_entries e key [] h = []"
| "sent_entries e key (pid # pids) h =
    (''['' @ now e h @ ''] [SIGNAL] Sent Ctrl+'' @ key @ '' to process '' @ show_int pid)
      # sent_entries e key pids (h @ [Now])"


section \<open>Sample machines\<close>

text \<open>
  Concrete environments and states on which the theorems are run.  \<open>os_idle\<close> has no
  shell and no process: every spawn fails and every pid is unknown.  \<open>os_live\<close> knows
  every pid, as a process without children that can be killed and signalled.
  \<open>os_denied\<close> resolves every pid but refuses to list its children.
\<close>

definition os_idle :: os where
  "os_idle = \<lparr>unix_shell = ''/bin/sh'',
     now = (\<lambda>h. ''12:00:00''),
     spawn = (\<lambda>h argv cwd. Inl ''[Errno 2] No such file or directory: /bin/sh''),
     readline = (\<lambda>h pid. Inr []),
     wait = (\<lambda>h pid. 0),
     ps_process = (\<lambda>h pid. Some NoSuchProcess),
     ps_children = (\<lambda>h pid. Inl NoSuchProcess),
     ps_kill = (\<lambda>h pid. KillRaised NoSuchProcess),
     ps_is_running = (\<lambda>h pid. False),
     ps_create_time = (\<lambda>h pid. Inl NoSuchProcess),
     process_iter = (\<lambda>h. []),
     os_kill = (\<lambda>h pid sg. Some ''[Errno 3] No such process'')\<rparr>"

definition os_live :: os where
  "os_live = os_idle\<lparr>ps_process := (\<lambda>h pid. None),
     ps_children := (\<lambda>h pid. Inr []),
     ps_kill := (\<lambda>h pid. KillSent),
     ps_is_running := (\<lambda>h pid. True),
     ps_create_time := (\<lambda>h pid. Inr ''11:59:00''),
     os_kill := (\<lambda>h pid sg. None)\<rparr>"


text \<open>
  \<open>os_sh\<close> is a machine with a shell at \<^verbatim>\<open>/bin/sh\<close> and nothing else installed but
  \<^verbatim>\<open>echo\<close>.  Starting the shell succeeds with pid 4242, whatever the command text; any
  other program cannot be started.  The shell run on \<^verbatim>\<open>echo hello\<close> prints
  \<^verbatim>\<open>hello\<close> and returns 0; on any other command it prints that the command is not
  found and returns 127.  The child's output is read off the history: the command of the
  spawn and the number of reads made so far.
\<close>

fun spawned :: "history \<Rightarrow> string" where
  "spawned [] = []"
| "spawned (Spawn argv cwd # h) = last argv"
| "spawned (c # h) = spawned h"

fun reads :: "history \<Rightarrow> nat" where
  "reads [] = 0"
| "reads (Readline pid # h) = Suc (reads h)"
| "reads (c # h) = reads h"

definition sh_output :: "string \<Rightarrow> string list" where
  "sh_output c = (if c = ''echo hello'' then [''hello'' @ nl]
     else [''/bin/sh: 1: '' @ c @ '': not found'' @ nl])"

definition sh_status :: "string \<Rightarrow> int" where
  "sh_status c = (if c = ''echo hello'' then 0 else 127)"

definition os_sh :: os where
  "os_sh = os_live\<lparr>
     spawn := (\<lambda>h argv cwd. if argv \<noteq> [] \<and> hd argv = ''/bin/sh'' then Inr 4242
                 else Inl ''[Errno 2] No such file or directory''),
     readline := (\<lambda>h pid. Inr (if reads h < length (sh_output (spawned h))
                                  then sh_output (spawned h) ! reads h else [])),
     wait := (\<lambda>h pid. sh_status (spawned h))\<rparr>"



definition st_empty :: terminal_state where
  "st_empty = \<lparr>current_dir = ''/home'', processes = [], command_history = [],
     logs = [], upload_dir = ''/home/uploads''\<rparr>"

definition st_full :: terminal_state where
  "st_full = st_empty\<lparr>logs := replicate 1000 ''old''\<rparr>"

text \<open>A registry that tracks pid 5, started as \<^verbatim>\<open>sleep 100\<close>.\<close>

definition st_one :: terminal_state where
  "st_one = st_empty\<lparr>processes := [(5, \<lparr>process = 5, cmd = ''sleep 100'', ptype = ''bash''\<rparr>)]\<rparr>"

text \<open>
  A registry that still tracks pid 4242 from an earlier \<^verbatim>\<open>sleep 100\<close>, and the state of
  an execution of \<^verbatim>\<open>echo hello\<close> on \<open>os_sh\<close> after its first chunk.
\<close>

definition st_stale :: terminal_state where
  "st_stale = st_empty\<lparr>processes :=
     [(4242, \<lparr>process = 4242, cmd = ''sleep 100'', ptype = ''bash''\<rparr>)]\<rparr>"

definition sys_hello :: sys where
  "sys_hello = (st_empty\<lparr>processes :=
        [(4242, \<lparr>process = 4242, cmd = ''echo hello'', ptype = ''bash''\<rparr>)],
      logs := [''[12:00:00] [COMMAND] Executing: echo hello'']\<rparr>,
     [Now, Spawn [''/bin/sh'', ''-c'', ''echo hello''] ''/home'', Readline 4242])"


section \<open>The log buffer\<close>

lemma last_n_all: "length xs \<le> n \<Longrightarrow> last_n n xs = xs"
  by (simp add: last_n_def)

lemma last_n_length: "length (last_n n xs) = min n (length xs)"
  by (simp add: last_n_def)

lemma last_n_snoc: "last_n n (last_n n xs @ [x]) = last_n n (xs @ [x])"
proof (cases "length xs \<le> n")
  case True
  then show ?thesis by (simp add: last_n_def)
next
  case False
  then have "Suc (length xs) - n = Suc (length xs - n)" by arith
  with False show ?thesis by (simp add: last_n_def)
qed

lemma last_n_append: "last_n n (last_n n xs @ ys) = last_n n (xs @ ys)"
proof (induction ys arbitrary: xs)
  case Nil
  show ?case by (simp add: last_n_def)
next
  case (Cons y ys)
  have "last_n n (last_n n xs @ y # ys) = last_n n ((last_n n xs @ [y]) @ ys)"
    by simp
  also have "\<dots> = last_n n (last_n n (last_n n xs @ [y]) @ ys)"
    using Cons.IH [of "last_n n xs @ [y]"] by simp
  also have "\<dots> = last_n n (last_n n (xs @ [y]) @ ys)"
    by (simp only: last_n_snoc)
  also have "\<dots> = last_n n ((xs @ [y]) @ ys)"
    using Cons.IH [of "xs @ [y]"] by simp
  finally show ?case by simp
qed

lemma log_message_logs:
  "logs (fst (snd (log_message e msg level s))) =
     last_n 1000 (logs (fst s) @ [fst (log_message e msg level s)])"
  by (simp add: log_message_def Let_def last_n_def)

lemma log_message_entry:
  "fst (log_message e msg level s) = ''['' @ now e (snd s) @ ''] ['' @ level @ ''] '' @ msg"
  by (simp add: log_message_def Let_def)

lemma log_message_history: "snd (snd (log_message e msg level s)) = snd s @ [Now]"
  by (simp add: log_message_def Let_def)

lemma log_message_processes:
  "processes (fst (snd (log_message e msg level s))) = processes (fst s)"
  by (simp add: log_message_def Let_def)

text \<open>
  C8.  After every \<^verbatim>\<open>log_message\<close> the buffer has at most 1000 entries and is the last
  1000 of the old buffer followed by the new entry.  From a buffer below the bound the
  append grows it by one and keeps every entry; from a full buffer of 1000 the oldest
  entry is dropped and the other 999 stay, in order, before the new one.  In both cases
  the retained old entries are a contiguous tail of the old buffer, unchanged and in
  their order.
\<close>

theorem log_buffer_bounded:
  "length (logs (fst (snd (log_message e msg level s)))) \<le> 1000
   \<and> logs (fst (snd (log_message e msg level s)))
       = last_n 1000 (logs (fst s) @ [fst (log_message e msg level s)])
   \<and> (length (logs (fst s)) < 1000 \<longrightarrow>
        logs (fst (snd (log_message e msg level s)))
          = logs (fst s) @ [fst (log_message e msg level s)])
   \<and> (length (logs (fst s)) \<ge> 1000 \<longrightarrow>
        length (logs (fst (snd (log_message e msg level s)))) = 1000
        \<and> logs (fst (snd (log_message e msg level s)))
          = drop (length (logs (fst s)) - 999) (logs (fst s))
              @ [fst (log_message e msg level s)])
   \<and> (\<exists>k. logs (fst (snd (log_message e msg level s)))
          = drop k (logs (fst s)) @ [fst (log_message e msg level s)])"
proof -
  let ?old = "logs (fst s)"
  let ?new = "logs (fst (snd (log_message e msg level s)))"
  let ?entry = "fst (log_message e msg level s)"
  have eq: "?new = last_n 1000 (?old @ [?entry])"
    by (rule log_message_logs)
  have len: "length ?new \<le> 1000"
    by (simp add: eq last_n_length)
  have small: "length ?old < 1000 \<longrightarrow> ?new = ?old @ [?entry]"
    by (simp add: eq last_n_def)
  have full: "length ?old \<ge> 1000 \<longrightarrow>
      length ?new = 1000 \<and> ?new = drop (length ?old - 999) ?old @ [?entry]"
    by (simp add: eq last_n_def)
  have tail: "\<exists>k. ?new = drop k ?old @ [?entry]"
  proof (cases "length ?old < 1000")
    case True
    with small have "?new = drop 0 ?old @ [?entry]" by simp
    then show ?thesis by blast
  next
    case False
    with full show ?thesis by auto
  qed
  from len eq small full tail show ?thesis by blast
qed

theorem log_buffer_bounded_witness:
  "length (logs (fst (st_empty, []::history))) < 1000
   \<and> logs (fst (snd (log_message os_idle ''m'' ''INFO'' (st_empty, []::history))))
       = [''[12:00:00] [INFO] m'']
   \<and> length (logs (fst (st_full, []::history))) \<ge> 1000
   \<and> logs (fst (snd (log_message os_idle ''m'' ''INFO'' (st_full, []::history))))
       = replicate 999 ''old'' @ [''[12:00:00] [INFO] m'']"
proof -
  have entry: "fst (log_message os_idle ''m'' ''INFO'' s) = ''[12:00:00] [INFO] m''" for s
    by (simp add: log_message_entry os_idle_def)
  have small: "length (logs (fst (st_empty, []::history))) < 1000"
    by (simp add: st_empty_def)
  have big: "length (logs (fst (st_full, []::history))) \<ge> 1000"
    by (simp add: st_empty_def st_full_def)
  have a: "logs (fst (snd (log_message os_idle ''m'' ''INFO'' (st_empty, []::history))))
       = logs (fst (st_empty, []::history)) @ [''[12:00:00] [INFO] m'']"
    using log_buffer_bounded [of os_idle "''m''" "''INFO''" "(st_empty, []::history)",
        THEN conjunct2, THEN conjunct2, THEN conjunct1, THEN mp, OF small]
    unfolding entry .
  have b: "logs (fst (snd (log_message os_idle ''m'' ''INFO'' (st_full, []::history))))
       = drop (length (logs (fst (st_full, []::history))) - 999) (logs (fst (st_full, []::history)))
           @ [''[12:00:00] [INFO] m'']"
    using log_buffer_bounded [of os_idle "''m''" "''INFO''" "(st_full, []::history)",
        THEN conjunct2, THEN conjunct2, THEN conjunct2, THEN conjunct1, THEN mp, OF big,
        THEN conjunct2]
    unfolding entry .
  from a have a': "logs (fst (snd (log_message os_idle ''m'' ''INFO'' (st_empty, []::history))))
       = [''[12:00:00] [INFO] m'']" by (simp add: st_empty_def)
  from b have b': "logs (fst (snd (log_message os_idle ''m'' ''INFO'' (st_full, []::history))))
       = replicate 999 ''old'' @ [''[12:00:00] [INFO] m'']"
    by (simp add: st_empty_def st_full_def)
  from small a' big b' show ?thesis by blast
qed


section \<open>Facts about killing a process tree\<close>

lemma kill_tree_calls_append:
  "kill_tree_calls (h @ h') = kill_tree_calls h @ kill_tree_calls h'"
  by (induction h rule: kill_tree_calls.induct) simp_all

lemma kills_sent_append: "kills_sent (h @ h') = kills_sent h @ kills_sent h'"
  by (induction h rule: kills_sent.induct) simp_all

lemma signals_sent_append: "signals_sent (h @ h') = signals_sent h @ signals_sent h'"
  by (induction h rule: signals_sent.induct) simp_all

lemma kill_tree_calls_kills: "kill_tree_calls (map PsKill cs) = []"
  by (induction cs) simp_all

lemma kills_sent_kills: "kills_sent (map PsKill cs) = cs"
  by (induction cs) simp_all

lemma try_kill_history: "snd (try_kill e p h) = h @ [PsKill p]"
  by (simp add: try_kill_def split: kill_result.split)

lemma try_kill_alive: "fst (try_kill e p h) = (ps_kill e h p \<noteq> KillEndsService)"
  by (simp add: try_kill_def split: kill_result.split)

lemma try_kill_ended: "\<not> fst (try_kill e p h) \<Longrightarrow> ended_by_kill e (snd (try_kill e p h))"
  by (simp add: try_kill_history try_kill_alive ended_by_kill_def)


lemma kill_children_returns:
  "fst (kill_children e T h) \<Longrightarrow> snd (kill_children e T h) = h @ map PsKill T"
proof (induction T arbitrary: h)
  case Nil
  show ?case by simp
next
  case (Cons c T)
  from Cons.prems have a: "fst (try_kill e c h)"
    and b: "fst (kill_children e T (h @ [PsKill c]))"
    by (auto simp add: Let_def try_kill_history split: if_splits)
  from Cons.IH [OF b] a show ?case by (simp add: Let_def try_kill_history)
qed

lemma kill_children_struck:
  "\<not> fst (kill_children e T h) \<Longrightarrow>
     ended_by_kill e (snd (kill_children e T h))
     \<and> (\<exists>k<length T. snd (kill_children e T h) = h @ map PsKill (take (Suc k) T))"
proof (induction T arbitrary: h)
  case Nil
  then show ?case by simp
next
  case (Cons c T)
  show ?case
  proof (cases "fst (try_kill e c h)")
    case False
    then have "kill_children e (c # T) h = try_kill e c h" by (simp add: Let_def)
    moreover have "snd (try_kill e c h) = h @ map PsKill (take (Suc 0) (c # T))"
      by (simp add: try_kill_history)
    ultimately show ?thesis using try_kill_ended [OF False] by auto
  next
    case True
    then have step: "kill_children e (c # T) h = kill_children e T (h @ [PsKill c])"
      by (simp add: Let_def try_kill_history)
    with Cons.prems have "\<not> fst (kill_children e T (h @ [PsKill c]))" by simp
    from Cons.IH [OF this] obtain k where k: "k < length T"
      and e: "ended_by_kill e (snd (kill_children e T (h @ [PsKill c])))"
      and s: "snd (kill_children e T (h @ [PsKill c])) = (h @ [PsKill c]) @ map PsKill (take (Suc k) T)"
      by blast
    from s have "snd (kill_children e (c # T) h) = h @ map PsKill (take (Suc (Suc k)) (c # T))"
      unfolding step by simp
    moreover from k have "Suc k < length (c # T)" by simp
    ultimately show ?thesis using e unfolding step by blast
  qed
qed

lemma kill_children_snoc:
  "kill_children e (cs @ [p]) h
     = (let r = kill_children e cs h in if fst r then try_kill e p (snd r) else r)"
  by (induction cs arbitrary: h) (simp_all add: Let_def prod_eq_iff)

lemma kill_failed_result: "fst (kill_failed e pid x s) = Some False"
  by (simp add: kill_failed_def split: ps_exc.split)

lemma kill_failed_processes: "processes (fst (snd (kill_failed e pid x s))) = processes (fst s)"
  by (simp add: kill_failed_def log_message_processes split: ps_exc.split)

lemma kill_failed_history:
  "snd (snd (kill_failed e pid x s)) = snd s \<or> snd (snd (kill_failed e pid x s)) = snd s @ [Now]"
  by (simp add: kill_failed_def log_message_history split: ps_exc.split)


lemma kill_failed_calls:
  "kill_tree_calls (snd (snd (kill_failed e pid x s))) = kill_tree_calls (snd s)"
  using kill_failed_history [of e pid x s] by (auto simp add: kill_tree_calls_append)

lemma kill_failed_kills:
  "kills_sent (snd (snd (kill_failed e pid x s))) = kills_sent (snd s)"
  using kill_failed_history [of e pid x s] by (auto simp add: kills_sent_append)

text \<open>
  With the root resolved and its descendants \<open>cs\<close> listed, the call is the row of
  guarded kills on \<open>cs\<close> and then on the root.
\<close>

lemma kill_process_tree_enumerated:
  assumes "ps_process e (snd s) pid = None"
    and "ps_children e (snd s @ [PsProcess pid]) pid = Inr cs"
  shows "kill_process_tree e pid s
    = ((if fst (kill_children e (cs @ [pid]) (snd s @ [PsProcess pid, PsChildren pid]))
        then Some True else None),
       (fst s, snd (kill_children e (cs @ [pid]) (snd s @ [PsProcess pid, PsChildren pid]))))"
  using assms by (simp add: kill_process_tree_def Let_def kill_children_snoc)

lemma kill_process_tree_not_enumerated:
  assumes "ps_process e (snd s) pid \<noteq> None
      \<or> (\<forall>cs. ps_children e (snd s @ [PsProcess pid]) pid \<noteq> Inr cs)"
  shows "fst (kill_process_tree e pid s) = Some False
    \<and> kills_sent (snd (snd (kill_process_tree e pid s))) = kills_sent (snd s)"
  using assms
  by (auto simp add: kill_process_tree_def Let_def kill_failed_result kill_failed_kills
      kills_sent_append split: option.split sum.split)

lemma kill_process_tree_processes:
  "processes (fst (snd (kill_process_tree e pid s))) = processes (fst s)"
  by (simp add: kill_process_tree_def Let_def kill_failed_processes
      split: option.split sum.split)

lemma kill_children_calls:
  "kill_tree_calls (snd (kill_children e T h)) = kill_tree_calls h"
proof (cases "fst (kill_children e T h)")
  case True
  from kill_children_returns [OF True] show ?thesis
    by (simp add: kill_tree_calls_append kill_tree_calls_kills)
next
  case False
  from kill_children_struck [OF False] show ?thesis
    by (auto simp add: kill_tree_calls_append kill_tree_calls_kills)
qed


lemma kill_process_tree_calls:
  "kill_tree_calls (snd (snd (kill_process_tree e pid s))) = kill_tree_calls (snd s) @ [pid]"
proof (cases "ps_process e (snd s) pid = None
    \<and> (\<exists>cs. ps_children e (snd s @ [PsProcess pid]) pid = Inr cs)")
  case True
  then obtain cs where "ps_process e (snd s) pid = None"
    and "ps_children e (snd s @ [PsProcess pid]) pid = Inr cs" by blast
  from kill_process_tree_enumerated [OF this] show ?thesis
    by (simp add: kill_children_calls kill_tree_calls_append)
next
  case False
  then show ?thesis
    by (auto simp add: kill_process_tree_def Let_def kill_failed_calls kill_tree_calls_append
        split: option.split sum.split)
qed


lemma kill_process_tree_returned_iff:
  "fst (kill_process_tree e pid s) = Some b \<Longrightarrow>
     b = (ps_process e (snd s) pid = None
          \<and> (\<exists>cs. ps_children e (snd s @ [PsProcess pid]) pid = Inr cs))"
proof (cases "ps_process e (snd s) pid = None
    \<and> (\<exists>cs. ps_children e (snd s @ [PsProcess pid]) pid = Inr cs)")
  case True
  assume r: "fst (kill_process_tree e pid s) = Some b"
  from True obtain cs where "ps_process e (snd s) pid = None"
    and "ps_children e (snd s @ [PsProcess pid]) pid = Inr cs" by blast
  from kill_process_tree_enumerated [OF this] r have "b = True"
    by (simp split: if_splits)
  with True show ?thesis by simp
next
  case False
  assume r: "fst (kill_process_tree e pid s) = Some b"
  from False have "fst (kill_process_tree e pid s) = Some False"
    using kill_process_tree_not_enumerated [of e s pid] by blast
  with r False show ?thesis by simp
qed


lemma kill_process_tree_true:
  assumes "fst (kill_process_tree e pid s) = Some True"
  shows "\<exists>cs. ps_children e (snd s @ [PsProcess pid]) pid = Inr cs
    \<and> snd (snd (kill_process_tree e pid s))
        = snd s @ [PsProcess pid, PsChildren pid] @ map PsKill (cs @ [pid])"
proof -
  from kill_process_tree_returned_iff [OF assms] obtain cs
    where a: "ps_process e (snd s) pid = None"
      and b: "ps_children e (snd s @ [PsProcess pid]) pid = Inr cs" by blast
  let ?K = "kill_children e (cs @ [pid]) (snd s @ [PsProcess pid, PsChildren pid])"
  from assms have "fst ?K"
    unfolding kill_process_tree_enumerated [OF a b] by (simp split: if_splits)
  from kill_children_returns [OF this]
  have "snd (snd (kill_process_tree e pid s))
        = snd s @ [PsProcess pid, PsChildren pid] @ map PsKill (cs @ [pid])"
    unfolding kill_process_tree_enumerated [OF a b] by simp
  with b show ?thesis by blast
qed

text \<open>What one call of \<^verbatim>\<open>kill_process_tree\<close> inside a sweep contributes.\<close>

lemma kill_process_tree_root_kill:
  assumes "fst (kill_process_tree e pid s) = Some True"
  shows "pid \<in> set (kills_sent (snd (snd (kill_process_tree e pid s))))"
proof -
  from kill_process_tree_true [OF assms] obtain cs where
    "snd (snd (kill_process_tree e pid s))
        = snd s @ [PsProcess pid, PsChildren pid] @ map PsKill (cs @ [pid])" by blast
  then show ?thesis by (simp add: kills_sent_append kills_sent_kills)
qed





lemma dict_del_absent: "\<not> dict_has k d \<Longrightarrow> dict_del k d = d"
  by (induction d) (auto simp add: dict_del_def dict_has_def)

lemma dict_del_has: "\<not> dict_has k (dict_del k d)"
  by (auto simp add: dict_del_def dict_has_def)

section \<open>Stop by pid\<close>

text \<open>
  C5, amended.  \<^verbatim>\<open>api_stop_pid\<close> makes exactly the calls of one \<^verbatim>\<open>kill_process_tree(pid)\<close>
  and reports its result.  When that result is true the pid is removed from the
  registry, whether it was a member or not; when it is false the registry is left as it
  was, so a tracked pid whose process is already gone stays tracked.  When the call
  does not return, because it struck the service, there is no answer.
\<close>

theorem stop_pid_registry:
  "snd (snd (api_stop_pid e pid s)) = snd (snd (kill_process_tree e pid s))
   \<and> kill_tree_calls (snd (snd (api_stop_pid e pid s))) = kill_tree_calls (snd s) @ [pid]
   \<and> map_option success (fst (api_stop_pid e pid s)) = fst (kill_process_tree e pid s)
   \<and> processes (fst (snd (api_stop_pid e pid s)))
       = (if fst (kill_process_tree e pid s) = Some True
          then dict_del pid (processes (fst s))
          else processes (fst s))
   \<and> (fst (kill_process_tree e pid s) = Some True \<longrightarrow>
        pid \<in> set (kills_sent (snd (snd (api_stop_pid e pid s)))))"
proof -
  have h: "snd (snd (api_stop_pid e pid s)) = snd (snd (kill_process_tree e pid s))"
    by (simp add: api_stop_pid_def Let_def split: option.split)
  have c: "kill_tree_calls (snd (snd (api_stop_pid e pid s))) = kill_tree_calls (snd s) @ [pid]"
    by (simp only: h kill_process_tree_calls)
  have r: "map_option success (fst (api_stop_pid e pid s)) = fst (kill_process_tree e pid s)"
    by (simp add: api_stop_pid_def Let_def split: option.split)
  have p: "processes (fst (snd (api_stop_pid e pid s)))
       = (if fst (kill_process_tree e pid s) = Some True
          then dict_del pid (processes (fst s))
          else processes (fst s))"
    using kill_process_tree_processes [of e pid s]
    by (simp add: api_stop_pid_def Let_def dict_del_absent split: option.split)
  have k: "fst (kill_process_tree e pid s) = Some True \<longrightarrow>
        pid \<in> set (kills_sent (snd (snd (api_stop_pid e pid s))))"
    using kill_process_tree_root_kill [of e pid s] by (simp only: h) blast
  from h c r p k show ?thesis by blast
qed

text \<open>
  On \<open>os_idle\<close> the process 5 does not exist: \<^verbatim>\<open>kill_process_tree\<close> returns false and the
  tracked pid 5 is still in the registry after the stop.
\<close>

theorem stop_pid_keeps_entry_counterexample:
  "dict_has 5 (processes (fst (st_one, []::history)))
   \<and> fst (kill_process_tree os_idle 5 (st_one, [])) = Some False
   \<and> dict_has 5 (processes (fst (snd (api_stop_pid os_idle 5 (st_one, [])))))"
  by code_simp

theorem stop_pid_registry_witness:
  "fst (kill_process_tree os_live 5 (st_one, [])) = Some True
   \<and> processes (fst (snd (api_stop_pid os_live 5 (st_one, [])))) = []
   \<and> map_option success (fst (api_stop_pid os_live 5 (st_one, []))) = Some True
   \<and> 5 \<in> set (kills_sent (snd (snd (api_stop_pid os_live 5 (st_one, [])))))
   \<and> fst (kill_process_tree os_idle 5 (st_one, [])) = Some False
   \<and> processes (fst (snd (api_stop_pid os_idle 5 (st_one, [])))) = processes st_one
   \<and> map_option success (fst (api_stop_pid os_idle 5 (st_one, []))) = Some False"
proof -
  have t: "fst (kill_process_tree os_live 5 (st_one, [])) = Some True" by code_simp
  have f: "fst (kill_process_tree os_idle 5 (st_one, [])) = Some False" by code_simp
  have d: "dict_del 5 (processes (fst (st_one, []::history))) = []" by code_simp
  note live = stop_pid_registry [of os_live 5 "(st_one, [])"]
  note idle = stop_pid_registry [of os_idle 5 "(st_one, [])"]
  from live t d have a: "processes (fst (snd (api_stop_pid os_live 5 (st_one, [])))) = []"
    by simp
  from live t have b: "map_option success (fst (api_stop_pid os_live 5 (st_one, []))) = Some True"
    by simp
  from live t have c: "5 \<in> set (kills_sent (snd (snd (api_stop_pid os_live 5 (st_one, [])))))"
    by blast
  from idle f have a': "processes (fst (snd (api_stop_pid os_idle 5 (st_one, [])))) = processes st_one"
    by simp
  from idle f have b': "map_option success (fst (api_stop_pid os_idle 5 (st_one, []))) = Some False"
    by simp
  from t a b c f a' b' show ?thesis by (intro conjI)
qed

section \<open>Signal dispatch\<close>

lemma ctrl_loop_other:
  assumes "key \<noteq> ''C''" and "key \<noteq> ''Z''"
  shows "snd (ctrl_loop e key pids s) = snd s @ replicate (length pids) Now
    \<and> processes (fst (ctrl_loop e key pids s)) = processes (fst s)
    \<and> logs (fst (ctrl_loop e key pids s))
        = (if pids = [] then logs (fst s)
           else last_n 1000 (logs (fst s) @ sent_entries e key pids (snd s)))"
proof (induction pids arbitrary: s)
  case Nil
  show ?case by simp
next
  case (Cons pid pids)
  define msg where "msg = ''Sent Ctrl+'' @ key @ '' to process '' @ show_int pid"
  define s1 where "s1 = snd (log_message e msg ''SIGNAL'' s)"
  define entry where "entry = ''['' @ now e (snd s) @ ''] [SIGNAL] '' @ msg"
  have step: "ctrl_loop e key (pid # pids) s = ctrl_loop e key pids s1"
    using assms by (simp add: Let_def msg_def s1_def)
  have h1: "snd s1 = snd s @ [Now]"
    unfolding s1_def by (rule log_message_history)
  have p1: "processes (fst s1) = processes (fst s)"
    unfolding s1_def by (rule log_message_processes)
  have l1: "logs (fst s1) = last_n 1000 (logs (fst s) @ [entry])"
    unfolding s1_def entry_def by (simp add: log_message_logs log_message_entry)
  have ents: "sent_entries e key (pid # pids) (snd s) = entry # sent_entries e key pids (snd s1)"
    unfolding entry_def msg_def h1 by simp
  note ih = Cons.IH [of s1]
  have a: "snd (ctrl_loop e key (pid # pids) s) = snd s @ replicate (length (pid # pids)) Now"
  proof -
    have "snd (ctrl_loop e key (pid # pids) s) = (snd s @ [Now]) @ replicate (length pids) Now"
      using ih by (simp only: step h1)
    then show ?thesis by (simp add: replicate_append_same)
  qed
  have b: "processes (fst (ctrl_loop e key (pid # pids) s)) = processes (fst s)"
    using ih by (simp only: step p1)
  have c: "logs (fst (ctrl_loop e key (pid # pids) s))
      = last_n 1000 (logs (fst s) @ sent_entries e key (pid # pids) (snd s))"
  proof (cases "pids = []")
    case True
    have "ctrl_loop e key pids s1 = s1"
      using True by simp
    then have "logs (fst (ctrl_loop e key (pid # pids) s)) = logs (fst s1)"
      by (simp only: step)
    also have "\<dots> = last_n 1000 (logs (fst s) @ [entry])" by (rule l1)
    finally have "logs (fst (ctrl_loop e key (pid # pids) s))
        = last_n 1000 (logs (fst s) @ entry # sent_entries e key pids (snd s1))"
      using True by simp
    then show ?thesis by (simp only: ents)
  next
    case False
    with ih have "logs (fst (ctrl_loop e key pids s1))
        = last_n 1000 (logs (fst s1) @ sent_entries e key pids (snd s1))"
      by simp
    then have "logs (fst (ctrl_loop e key (pid # pids) s))
        = last_n 1000 (last_n 1000 (logs (fst s) @ [entry]) @ sent_entries e key pids (snd s1))"
      by (simp only: step l1)
    also have "\<dots> = last_n 1000 ((logs (fst s) @ [entry]) @ sent_entries e key pids (snd s1))"
      by (rule last_n_append)
    finally show ?thesis by (simp only: ents append_Cons append_Nil append_assoc)
  qed
  have "pid # pids \<noteq> []" by simp
  with a b c show ?case by presburger
qed

lemma signals_sent_clock: "signals_sent (replicate n Now) = []"
  by (induction n) simp_all

lemma sent_entries_length: "length (sent_entries e key pids h) = length pids"
  by (induction pids arbitrary: h) simp_all

lemma sent_entries_nth:
  "i < length pids \<Longrightarrow>
     \<exists>ts. sent_entries e key pids h ! i
       = ''['' @ ts @ ''] [SIGNAL] Sent Ctrl+'' @ key @ '' to process '' @ show_int (pids ! i)"
proof (induction pids arbitrary: h i)
  case Nil
  then show ?case by simp
next
  case (Cons pid pids)
  show ?case
  proof (cases i)
    case 0
    then show ?thesis by simp
  next
    case (Suc j)
    with Cons.prems have "j < length pids" by simp
    from Cons.IH [OF this, of "h @ [Now]"] Suc show ?thesis by simp
  qed
qed

text \<open>
  C9.  For a key that is neither \<^verbatim>\<open>C\<close> nor \<^verbatim>\<open>Z\<close> the signal route makes no
  \<^verbatim>\<open>os.kill\<close> call: the only calls are one clock read for each tracked pid, so no signal
  reaches any process.  It still writes one \<^verbatim>\<open>Sent Ctrl+key to process pid\<close> entry for
  each pid of the registry, in order (the buffer keeping its last 1000 entries), leaves
  the registry as it was and answers success.
\<close>

theorem ctrl_other_key:
  assumes "key \<noteq> ''C''" and "key \<noteq> ''Z''"
  shows "success (fst (api_ctrl e key s))
    \<and> snd (snd (api_ctrl e key s))
        = snd s @ replicate (length (dict_keys (processes (fst s)))) Now
    \<and> signals_sent (snd (snd (api_ctrl e key s))) = signals_sent (snd s)
    \<and> processes (fst (snd (api_ctrl e key s))) = processes (fst s)
    \<and> logs (fst (snd (api_ctrl e key s)))
        = (if dict_keys (processes (fst s)) = [] then logs (fst s)
           else last_n 1000 (logs (fst s)
                  @ sent_entries e key (dict_keys (processes (fst s))) (snd s)))
    \<and> length (sent_entries e key (dict_keys (processes (fst s))) (snd s))
        = length (dict_keys (processes (fst s)))
    \<and> (\<forall>i < length (dict_keys (processes (fst s))). \<exists>ts.
          sent_entries e key (dict_keys (processes (fst s))) (snd s) ! i
            = ''['' @ ts @ ''] [SIGNAL] Sent Ctrl+'' @ key @ '' to process ''
                @ show_int (dict_keys (processes (fst s)) ! i))"
proof -
  let ?keys = "dict_keys (processes (fst s))"
  note loop = ctrl_loop_other [OF assms, of e ?keys s]
  have r: "success (fst (api_ctrl e key s))" by (simp add: api_ctrl_def)
  have st: "snd (api_ctrl e key s) = ctrl_loop e key ?keys s" by (simp add: api_ctrl_def)
  have h: "snd (snd (api_ctrl e key s)) = snd s @ replicate (length ?keys) Now"
    using loop by (simp only: st)
  have sg: "signals_sent (snd (snd (api_ctrl e key s))) = signals_sent (snd s)"
    by (simp add: h signals_sent_append signals_sent_clock)
  have p: "processes (fst (snd (api_ctrl e key s))) = processes (fst s)"
    using loop by (simp only: st)
  have l: "logs (fst (snd (api_ctrl e key s)))
        = (if ?keys = [] then logs (fst s)
           else last_n 1000 (logs (fst s) @ sent_entries e key ?keys (snd s)))"
    using loop by (simp only: st)
  have n: "length (sent_entries e key ?keys (snd s)) = length ?keys"
    by (rule sent_entries_length)
  have each: "\<forall>i < length ?keys. \<exists>ts. sent_entries e key ?keys (snd s) ! i
            = ''['' @ ts @ ''] [SIGNAL] Sent Ctrl+'' @ key @ '' to process ''
                @ show_int (?keys ! i)"
    using sent_entries_nth by blast
  from r h sg p l n each show ?thesis by blast
qed

lemma show_int_5: "show_int 5 = ''5''" by code_simp

theorem ctrl_other_key_witness:
  "''X'' \<noteq> ''C'' \<and> ''X'' \<noteq> ''Z''
   \<and> success (fst (api_ctrl os_live ''X'' (st_one, [])))
   \<and> signals_sent (snd (snd (api_ctrl os_live ''X'' (st_one, [])))) = []
   \<and> logs (fst (snd (api_ctrl os_live ''X'' (st_one, []))))
       = [''[12:00:00] [SIGNAL] Sent Ctrl+X to process 5'']"
proof -
  have k1: "''X'' \<noteq> ''C''" and k2: "''X'' \<noteq> ''Z''" by simp_all
  have keys: "dict_keys (processes st_one) = [5]"
    by (simp add: st_one_def st_empty_def dict_keys_def)
  have old: "logs st_one = []"
    by (simp add: st_one_def st_empty_def)
  have clock: "now os_live h = ''12:00:00''" for h
    by (simp add: os_live_def os_idle_def)
  from ctrl_other_key [OF k1 k2, of os_live "(st_one, [])"] k1 k2
  show ?thesis by (simp add: keys old clock show_int_5 last_n_def)
qed

section \<open>Streaming execution\<close>

lemma snapshot_pids: "map v_pid (fst (get_all_processes_loop e items h)) = map fst items"
  by (induction items arbitrary: h) (auto simp add: Let_def split: option.split sum.split)

lemma read_step_marker:
  assumes "read_step e p s = (chunk, AfterMarker pid, s')"
  shows "p = pid \<and> \<not> dict_has pid (processes (fst s'))
    \<and> chunk = Some (marker_chunk (wait e (butlast (snd s')) pid))
    \<and> snd s' = snd s @ [Readline pid, Wait pid]"
proof (cases "readline e (snd s) p")
  case (Inl x)
  with assms show ?thesis by (simp add: read_step_def Let_def)
next
  case (Inr line)
  show ?thesis
  proof (cases "line = []")
    case False
    with Inr assms show ?thesis by (simp add: read_step_def Let_def)
  next
    case True
    with Inr assms have p: "p = pid"
      and c: "chunk = Some (marker_chunk (wait e (snd s @ [Readline p]) p))"
      and s': "s' = ((if dict_has p (processes (fst s))
                      then (fst s)\<lparr>processes := dict_del p (processes (fst s))\<rparr> else fst s),
                     snd s @ [Readline p, Wait p])"
      by (auto simp add: read_step_def Let_def)
    have "\<not> dict_has p (processes (fst s'))"
      by (simp add: s' dict_del_has)
    moreover have "butlast (snd s') = snd s @ [Readline p]"
      by (simp add: s' butlast_append)
    ultimately show ?thesis using p c s' by simp
  qed
qed

text \<open>
  C4.  Whatever the registry holds when the generator is resumed, the step that yields
  the terminal marker of the execution of \<open>pid\<close> leaves a registry without \<open>pid\<close>, and
  a snapshot taken of that state does not list it.  The marker carries the return code
  that the wait just before it reported.
\<close>

theorem marker_unregistered:
  assumes "gen_next e g s = (chunk, AfterMarker pid, s')"
  shows "\<not> dict_has pid (processes (fst s'))
    \<and> pid \<notin> set (map v_pid (fst (get_all_processes e s')))
    \<and> chunk = Some (marker_chunk (wait e (butlast (snd s')) pid))"
proof -
  have "\<exists>p s0. read_step e p s0 = (chunk, AfterMarker pid, s')"
  proof (cases g)
    case (Start c cwd)
    with assms show ?thesis
      by (auto simp add: Let_def split: sum.splits)
  next
    case (Reading p)
    with assms have "read_step e p s = (chunk, AfterMarker pid, s')" by simp
    then show ?thesis by blast
  qed (use assms in auto)
  then obtain p s0 where "read_step e p s0 = (chunk, AfterMarker pid, s')" by blast
  from read_step_marker [OF this]
  have a: "\<not> dict_has pid (processes (fst s'))"
    and c: "chunk = Some (marker_chunk (wait e (butlast (snd s')) pid))" by simp_all
  have "map v_pid (fst (get_all_processes e s')) = map fst (processes (fst s'))"
    by (simp add: get_all_processes_def Let_def snapshot_pids)
  with a have b: "pid \<notin> set (map v_pid (fst (get_all_processes e s')))"
    by (simp add: dict_has_def)
  from a b c show ?thesis by blast
qed

theorem marker_unregistered_witness:
  "gen_next os_sh (Reading 4242) sys_hello
     = (Some (marker_chunk 0), AfterMarker 4242,
        snd (snd (gen_next os_sh (Reading 4242) sys_hello)))
   \<and> \<not> dict_has 4242 (processes (fst (snd (snd (gen_next os_sh (Reading 4242) sys_hello)))))
   \<and> 4242 \<notin> set (map v_pid (fst (get_all_processes os_sh
                  (snd (snd (gen_next os_sh (Reading 4242) sys_hello))))))"
proof -
  have step: "gen_next os_sh (Reading 4242) sys_hello
     = (Some (marker_chunk 0), AfterMarker 4242,
        snd (snd (gen_next os_sh (Reading 4242) sys_hello)))"
    by code_simp
  from marker_unregistered [OF step] step show ?thesis by blast
qed

lemma drain_after_error: "drain e (Suc n) AfterError s = Some ([], s)"
  by simp

text \<open>
  C2, amended.  When starting the shell fails, the stream is the single chunk
  \<^verbatim>\<open>Error executing command: <text of the exception>\<close> and then ends, and the registry is
  the one of before, at the chunk and at the end.  Whether a spawn fails is decided by
  the shell and the working directory, not by the command text: a command that names no
  existing program is started through the shell like any other.
\<close>

theorem spawn_failure_stream:
  assumes "spawn e (snd s @ [Now]) [unix_shell e, ''-c'', c] cwd = Inl x"
  shows "drain e (Suc (Suc n)) (Start c cwd) s
      = Some ([''Error executing command: '' @ x @ nl],
              (fst (snd (log_message e (''Executing: '' @ c) ''COMMAND'' s)),
               snd s @ [Now, Spawn [unix_shell e, ''-c'', c] cwd]))
    \<and> processes (fst (snd (snd (gen_next e (Start c cwd) s)))) = processes (fst s)
    \<and> processes (fst (snd (log_message e (''Executing: '' @ c) ''COMMAND'' s)))
        = processes (fst s)"
proof -
  define s1 where "s1 = snd (log_message e (''Executing: '' @ c) ''COMMAND'' s)"
  have h1: "snd s1 = snd s @ [Now]"
    unfolding s1_def by (rule log_message_history)
  have p1: "processes (fst s1) = processes (fst s)"
    unfolding s1_def by (rule log_message_processes)
  have sp: "spawn e (snd s1) [unix_shell e, ''-c'', c] cwd = Inl x"
    using assms by (simp only: h1)
  have step: "gen_next e (Start c cwd) s
      = (Some (error_chunk x), AfterError, (fst s1, snd s1 @ [Spawn [unix_shell e, ''-c'', c] cwd]))"
    using sp by (simp add: Let_def s1_def)
  have "drain e (Suc (Suc n)) (Start c cwd) s
      = Some ([error_chunk x], (fst s1, snd s1 @ [Spawn [unix_shell e, ''-c'', c] cwd]))"
    unfolding drain.simps (2) [of e "Suc n"] step by simp
  then have a: "drain e (Suc (Suc n)) (Start c cwd) s
      = Some ([''Error executing command: '' @ x @ nl],
              (fst s1, snd s @ [Now, Spawn [unix_shell e, ''-c'', c] cwd]))"
    by (simp add: h1 error_chunk_def)
  have b: "processes (fst (snd (snd (gen_next e (Start c cwd) s)))) = processes (fst s)"
    by (simp only: step snd_conv fst_conv p1)
  from a b p1 show ?thesis unfolding s1_def by blast
qed

theorem spawn_failure_stream_witness:
  "spawn os_idle ([] @ [Now]) [unix_shell os_idle, ''-c'', ''ls''] ''/home''
     = Inl ''[Errno 2] No such file or directory: /bin/sh''
   \<and> map_option fst (drain os_idle 2 (Start ''ls'' ''/home'') (st_empty, []))
     = Some [''Error executing command: [Errno 2] No such file or directory: /bin/sh'' @ nl]
   \<and> processes (fst (snd (snd (gen_next os_idle (Start ''ls'' ''/home'') (st_empty, [])))))
     = []"
proof -
  have sp: "spawn os_idle (snd (st_empty, []::history) @ [Now]) [unix_shell os_idle, ''-c'', ''ls''] ''/home''
     = Inl ''[Errno 2] No such file or directory: /bin/sh''"
    by (simp add: os_idle_def)
  have two: "(2::nat) = Suc (Suc 0)" by simp
  from spawn_failure_stream [OF sp, of 0] sp
  show ?thesis by (simp add: two st_empty_def)
qed

text \<open>
  On \<open>os_sh\<close> no program \<^verbatim>\<open>bogus_nonexistent_binary\<close> can be started, yet executing that
  command starts the shell: the stream is the shell's complaint and then the marker
  with exit code 127, two chunks and no error line.
\<close>

theorem bogus_command_counterexample:
  "spawn os_sh [] [''bogus_nonexistent_binary''] ''/home''
     = Inl ''[Errno 2] No such file or directory''
   \<and> map_option fst (drain os_sh 5 (Start ''bogus_nonexistent_binary'' ''/home'') (st_empty, []))
     = Some [''/bin/sh: 1: bogus_nonexistent_binary: not found'' @ nl,
             nl @ ''[Process completed with exit code: 127]'' @ nl]"
  by code_simp

section \<open>Registration\<close>

lemma dict_set_lookup: "map_of (dict_set k v d) k = Some v"
  by (induction d) auto

lemma dict_set_other: "k' \<noteq> k \<Longrightarrow> map_of (dict_set k v d) k' = map_of d k'"
  by (induction d) auto

lemma dict_set_keys:
  "dict_keys (dict_set k v d) = (if dict_has k d then dict_keys d else dict_keys d @ [k])"
  by (induction d) (auto simp add: dict_keys_def dict_has_def)

lemma gen_next_start_spawned:
  assumes "spawn e (snd s @ [Now]) [unix_shell e, ''-c'', c] cwd = Inr pid"
  shows "gen_next e (Start c cwd) s
     = read_step e pid
         ((fst (snd (log_message e (''Executing: '' @ c) ''COMMAND'' s)))
            \<lparr>processes := dict_set pid \<lparr>process = pid, cmd = c, ptype = classify c\<rparr>
                             (processes (fst s))\<rparr>,
          snd s @ [Now, Spawn [unix_shell e, ''-c'', c] cwd])"
proof -
  define s1 where "s1 = snd (log_message e (''Executing: '' @ c) ''COMMAND'' s)"
  have h1: "snd s1 = snd s @ [Now]"
    unfolding s1_def by (rule log_message_history)
  have p1: "processes (fst s1) = processes (fst s)"
    unfolding s1_def by (rule log_message_processes)
  have sp: "spawn e (snd s1) [unix_shell e, ''-c'', c] cwd = Inr pid"
    using assms by (simp only: h1)
  have "gen_next e (Start c cwd) s
     = read_step e pid
         ((fst s1)\<lparr>processes := dict_set pid \<lparr>process = pid, cmd = c, ptype = classify c\<rparr>
                             (processes (fst s1))\<rparr>,
          snd s1 @ [Spawn [unix_shell e, ''-c'', c] cwd])"
    using sp by (simp add: Let_def s1_def)
  then show ?thesis unfolding p1 h1 unfolding s1_def by simp
qed

lemma read_step_keeps:
  assumes "readline e (snd s) pid \<noteq> Inr []"
  shows "fst (snd (snd (read_step e pid s))) = fst s"
    and "\<forall>line. readline e (snd s) pid = Inr line \<longrightarrow>
           fst (read_step e pid s) = Some (rstrip line @ nl)"
  using assms by (auto simp add: read_step_def Let_def split: sum.split)

text \<open>
  C7, amended.  Registration is the assignment of lines 114 to 118 and cannot fail.
  When the spawn returns a pid, the registry at the first chunk maps that pid to the
  new entry: a pid that was already present keeps its place and loses its old entry, a
  new pid is added at the end.  The first chunk is the child's first line, not an
  error.  (The case left out is a child that writes nothing: its entry is added and
  removed again before the first chunk.)
\<close>

theorem register_overwrites:
  assumes "spawn e (snd s @ [Now]) [unix_shell e, ''-c'', c] cwd = Inr pid"
    and "readline e (snd s @ [Now, Spawn [unix_shell e, ''-c'', c] cwd]) pid \<noteq> Inr []"
  shows "map_of (processes (fst (snd (snd (gen_next e (Start c cwd) s))))) pid
        = Some \<lparr>process = pid, cmd = c, ptype = classify c\<rparr>
    \<and> dict_keys (processes (fst (snd (snd (gen_next e (Start c cwd) s)))))
        = (if dict_has pid (processes (fst s)) then dict_keys (processes (fst s))
           else dict_keys (processes (fst s)) @ [pid])
    \<and> (\<forall>line. readline e (snd s @ [Now, Spawn [unix_shell e, ''-c'', c] cwd]) pid = Inr line
          \<longrightarrow> fst (gen_next e (Start c cwd) s) = Some (rstrip line @ nl))"
proof -
  define st2 where "st2 = (fst (snd (log_message e (''Executing: '' @ c) ''COMMAND'' s)))
            \<lparr>processes := dict_set pid \<lparr>process = pid, cmd = c, ptype = classify c\<rparr>
                             (processes (fst s))\<rparr>"
  define h2 where "h2 = snd s @ [Now, Spawn [unix_shell e, ''-c'', c] cwd]"
  have step: "gen_next e (Start c cwd) s = read_step e pid (st2, h2)"
    unfolding st2_def h2_def by (rule gen_next_start_spawned [OF assms(1)])
  have rd: "readline e (snd (st2, h2)) pid \<noteq> Inr []"
    using assms(2) by (simp add: h2_def)
  have keep: "fst (snd (snd (gen_next e (Start c cwd) s))) = st2"
    using read_step_keeps(1) [OF rd] unfolding step by simp
  have p2: "processes st2 = dict_set pid \<lparr>process = pid, cmd = c, ptype = classify c\<rparr>
                             (processes (fst s))"
    by (simp add: st2_def)
  have a: "map_of (processes (fst (snd (snd (gen_next e (Start c cwd) s))))) pid
        = Some \<lparr>process = pid, cmd = c, ptype = classify c\<rparr>"
    by (simp only: keep p2 dict_set_lookup)
  have b: "dict_keys (processes (fst (snd (snd (gen_next e (Start c cwd) s)))))
        = (if dict_has pid (processes (fst s)) then dict_keys (processes (fst s))
           else dict_keys (processes (fst s)) @ [pid])"
    by (simp only: keep p2 dict_set_keys)
  have c: "\<forall>line. readline e h2 pid = Inr line
          \<longrightarrow> fst (gen_next e (Start c cwd) s) = Some (rstrip line @ nl)"
    using read_step_keeps(2) [OF rd] unfolding step by simp
  from a b c show ?thesis unfolding h2_def by blast
qed

text \<open>
  The registry tracks pid 4242 from an earlier command and \<open>os_sh\<close> hands out 4242
  again: the execution goes on without any error and the old entry is replaced.
\<close>

theorem register_duplicate_counterexample:
  "dict_has 4242 (processes st_stale)
   \<and> spawn os_sh [Now] [unix_shell os_sh, ''-c'', ''echo hello''] ''/home'' = Inr 4242
   \<and> fst (gen_next os_sh (Start ''echo hello'' ''/home'') (st_stale, [])) = Some (''hello'' @ nl)
   \<and> processes (fst (snd (snd (gen_next os_sh (Start ''echo hello'' ''/home'') (st_stale, [])))))
       = [(4242, \<lparr>process = 4242, cmd = ''echo hello'', ptype = ''bash''\<rparr>)]"
  by code_simp

theorem register_overwrites_witness:
  "spawn os_sh (snd (st_stale, []::history) @ [Now]) [unix_shell os_sh, ''-c'', ''echo hello''] ''/home''
     = Inr 4242
   \<and> readline os_sh (snd (st_stale, []::history) @ [Now, Spawn [unix_shell os_sh, ''-c'', ''echo hello''] ''/home'']) 4242
     \<noteq> Inr []
   \<and> map_of (processes (fst (snd (snd (gen_next os_sh (Start ''echo hello'' ''/home'') (st_stale, [])))))) 4242
       = Some \<lparr>process = 4242, cmd = ''echo hello'', ptype = classify ''echo hello''\<rparr>"
proof -
  have sp: "spawn os_sh (snd (st_stale, []::history) @ [Now]) [unix_shell os_sh, ''-c'', ''echo hello''] ''/home''
     = Inr 4242"
    by code_simp
  have rd: "readline os_sh (snd (st_stale, []::history) @ [Now, Spawn [unix_shell os_sh, ''-c'', ''echo hello''] ''/home'']) 4242
     \<noteq> Inr []"
    by code_simp
  from register_overwrites [OF sp rd] sp rd show ?thesis by blast
qed

section \<open>The stream of a spawned command\<close>

lemma drain_step:
  "gen_next e g s = (Some chunk, g1, s1) \<Longrightarrow>
     drain e (Suc k) g s = (case drain e k g1 s1 of
         None \<Rightarrow> None
       | Some (chunks, s2) \<Rightarrow> Some (chunk # chunks, s2))"
  by simp

lemma drain_after_marker: "drain e (Suc n) (AfterMarker pid) s = Some ([], s)"
  by simp

lemma read_step_line:
  assumes "readline e h pid = Inr line" and "line \<noteq> []"
  shows "read_step e pid (st, h) = (Some (rstrip line @ nl), Reading pid, (st, h @ [Readline pid]))"
  using assms by (simp add: read_step_def Let_def)

lemma read_step_eof:
  assumes "readline e h pid = Inr []"
  shows "read_step e pid (st, h)
    = (Some (marker_chunk (wait e (h @ [Readline pid]) pid)), AfterMarker pid,
       ((if dict_has pid (processes st) then st\<lparr>processes := dict_del pid (processes st)\<rparr>
         else st),
        h @ [Readline pid, Wait pid]))"
  using assms by (simp add: read_step_def Let_def)

lemma drain_reading:
  assumes "\<forall>i<length ls. readline e (h @ replicate i (Readline pid)) pid = Inr (ls ! i)
             \<and> ls ! i \<noteq> []"
    and "readline e (h @ replicate (length ls) (Readline pid)) pid = Inr []"
  shows "drain e (Suc (Suc (length ls)) + n) (Reading pid) (st, h)
    = Some (map (\<lambda>l. rstrip l @ nl) ls
              @ [marker_chunk (wait e (h @ replicate (Suc (length ls)) (Readline pid)) pid)],
            ((if dict_has pid (processes st) then st\<lparr>processes := dict_del pid (processes st)\<rparr>
              else st),
             h @ replicate (Suc (length ls)) (Readline pid) @ [Wait pid]))"
  using assms
proof (induction ls arbitrary: h)
  case Nil
  then have eof: "readline e h pid = Inr []" by simp
  have g: "gen_next e (Reading pid) (st, h)
    = (Some (marker_chunk (wait e (h @ [Readline pid]) pid)), AfterMarker pid,
       ((if dict_has pid (processes st) then st\<lparr>processes := dict_del pid (processes st)\<rparr>
         else st),
        h @ [Readline pid, Wait pid]))"
    by (simp only: gen_next.simps read_step_eof [OF eof])
  have fuel: "Suc (Suc (length ([]::string list))) + n = Suc (Suc n)" by simp
  show ?case
    unfolding fuel drain_step [OF g] drain_after_marker by simp
next
  case (Cons l ls)
  from Cons.prems(1) have "readline e (h @ replicate 0 (Readline pid)) pid = Inr ((l # ls) ! 0)
      \<and> (l # ls) ! 0 \<noteq> []"
    by blast
  then have first: "readline e h pid = Inr l" and ne: "l \<noteq> []" by simp_all
  have rest: "\<forall>i<length ls. readline e ((h @ [Readline pid]) @ replicate i (Readline pid)) pid
        = Inr (ls ! i) \<and> ls ! i \<noteq> []"
  proof (intro allI impI)
    fix i assume "i < length ls"
    then have "Suc i < length (l # ls)" by simp
    with Cons.prems(1) have "readline e (h @ replicate (Suc i) (Readline pid)) pid
        = Inr ((l # ls) ! Suc i) \<and> (l # ls) ! Suc i \<noteq> []"
      by blast
    then show "readline e ((h @ [Readline pid]) @ replicate i (Readline pid)) pid
        = Inr (ls ! i) \<and> ls ! i \<noteq> []"
      by simp
  qed
  have last: "readline e ((h @ [Readline pid]) @ replicate (length ls) (Readline pid)) pid = Inr []"
    using Cons.prems(2) by simp
  note ih = Cons.IH [OF rest last]
  have g: "gen_next e (Reading pid) (st, h)
    = (Some (rstrip l @ nl), Reading pid, (st, h @ [Readline pid]))"
    by (simp only: gen_next.simps read_step_line [OF first ne])
  have fuel: "Suc (Suc (length (l # ls))) + n = Suc (Suc (Suc (length ls)) + n)" by simp
  show ?case
    unfolding fuel drain_step [OF g] ih by simp
qed

lemma drain_same_step:
  "gen_next e g s = gen_next e g' s' \<Longrightarrow> drain e (Suc k) g s = drain e (Suc k) g' s'"
  by simp

text \<open>
  C1, amended.  Let the spawn succeed with \<open>pid\<close> and let the child write the non-empty
  lines \<open>ls\<close> and then close its output, no read raising.  Then the stream ends (any
  fuel of at least two more than the number of lines is enough), its chunks are the
  lines, each stripped on the right and ended by a line feed, followed by one last
  chunk: a line feed, the text \<^verbatim>\<open>[Process completed with exit code: N]\<close> and a line feed,
  with \<open>N\<close> the return code reported by the wait after the last read.  The last chunk
  thus begins with an empty line.  The registry at the end has no entry for \<open>pid\<close>.
\<close>

theorem stream_ends_with_marker:
  assumes "spawn e (snd s @ [Now]) [unix_shell e, ''-c'', c] cwd = Inr pid"
    and "\<forall>i<length ls.
           readline e ((snd s @ [Now, Spawn [unix_shell e, ''-c'', c] cwd])
                         @ replicate i (Readline pid)) pid = Inr (ls ! i)
           \<and> ls ! i \<noteq> []"
    and "readline e ((snd s @ [Now, Spawn [unix_shell e, ''-c'', c] cwd])
                       @ replicate (length ls) (Readline pid)) pid = Inr []"
  shows "\<exists>s'. drain e (Suc (Suc (length ls)) + n) (Start c cwd) s
        = Some (map (\<lambda>l. rstrip l @ nl) ls
                  @ [nl @ ''[Process completed with exit code: ''
                       @ show_int (wait e ((snd s @ [Now, Spawn [unix_shell e, ''-c'', c] cwd])
                                            @ replicate (Suc (length ls)) (Readline pid)) pid)
                       @ '']'' @ nl],
                s')
      \<and> \<not> dict_has pid (processes (fst s'))"
proof -
  define st2 where "st2 = (fst (snd (log_message e (''Executing: '' @ c) ''COMMAND'' s)))
            \<lparr>processes := dict_set pid \<lparr>process = pid, cmd = c, ptype = classify c\<rparr>
                             (processes (fst s))\<rparr>"
  define h2 where "h2 = snd s @ [Now, Spawn [unix_shell e, ''-c'', c] cwd]"
  define st3 where "st3 = (if dict_has pid (processes st2)
      then st2\<lparr>processes := dict_del pid (processes st2)\<rparr> else st2)"
  have "gen_next e (Start c cwd) s = read_step e pid (st2, h2)"
    unfolding st2_def h2_def by (rule gen_next_start_spawned [OF assms(1)])
  then have same: "gen_next e (Start c cwd) s = gen_next e (Reading pid) (st2, h2)"
    by simp
  have fuel: "Suc (Suc (length ls)) + n = Suc (Suc (length ls) + n)" by simp
  have "drain e (Suc (Suc (length ls)) + n) (Start c cwd) s
      = drain e (Suc (Suc (length ls)) + n) (Reading pid) (st2, h2)"
    unfolding fuel by (rule drain_same_step [OF same])
  also have "\<dots> = Some (map (\<lambda>l. rstrip l @ nl) ls
              @ [marker_chunk (wait e (h2 @ replicate (Suc (length ls)) (Readline pid)) pid)],
            (st3, h2 @ replicate (Suc (length ls)) (Readline pid) @ [Wait pid]))"
    unfolding st3_def
    by (rule drain_reading [OF assms(2) [folded h2_def] assms(3) [folded h2_def]])
  finally have run: "drain e (Suc (Suc (length ls)) + n) (Start c cwd) s
      = Some (map (\<lambda>l. rstrip l @ nl) ls
              @ [nl @ ''[Process completed with exit code: ''
                    @ show_int (wait e (h2 @ replicate (Suc (length ls)) (Readline pid)) pid)
                    @ '']'' @ nl],
            (st3, h2 @ replicate (Suc (length ls)) (Readline pid) @ [Wait pid]))"
    by (simp only: marker_chunk_def)
  have gone: "\<not> dict_has pid (processes (fst (st3, h2 @ replicate (Suc (length ls)) (Readline pid)
      @ [Wait pid])))"
    by (simp add: st3_def dict_del_has)
  from run gone show ?thesis unfolding h2_def by blast
qed

text \<open>
  \<^verbatim>\<open>echo hello\<close> on \<open>os_sh\<close>: the spawn succeeds and the child exits with code 0, and the
  last chunk is neither the marker text alone nor the marker text with its line feed.
\<close>

theorem marker_chunk_counterexample:
  "map_option fst (drain os_sh 3 (Start ''echo hello'' ''/home'') (st_empty, []))
     = Some [''hello'' @ nl, nl @ ''[Process completed with exit code: 0]'' @ nl]
   \<and> nl @ ''[Process completed with exit code: 0]'' @ nl
       \<noteq> ''[Process completed with exit code: 0]''
   \<and> nl @ ''[Process completed with exit code: 0]'' @ nl
       \<noteq> ''[Process completed with exit code: 0]'' @ nl"
  by code_simp

theorem stream_ends_with_marker_witness:
  "spawn os_sh (snd (st_empty, []::history) @ [Now]) [unix_shell os_sh, ''-c'', ''echo hello''] ''/home''
     = Inr 4242
   \<and> (\<exists>s'. drain os_sh 3 (Start ''echo hello'' ''/home'') (st_empty, [])
        = Some ([''hello'' @ nl, nl @ ''[Process completed with exit code: 0]'' @ nl], s')
      \<and> \<not> dict_has 4242 (processes (fst s')))"
proof -
  let ?h2 = "snd (st_empty, []::history) @ [Now, Spawn [unix_shell os_sh, ''-c'', ''echo hello''] ''/home'']"
  have sp: "spawn os_sh (snd (st_empty, []::history) @ [Now]) [unix_shell os_sh, ''-c'', ''echo hello''] ''/home''
     = Inr 4242"
    by code_simp
  have r0: "readline os_sh (?h2 @ replicate 0 (Readline 4242)) 4242 = Inr ([''hello'' @ nl] ! 0)
      \<and> [''hello'' @ nl] ! 0 \<noteq> []"
    by code_simp
  have lines: "\<forall>i<length [''hello'' @ nl].
      readline os_sh (?h2 @ replicate i (Readline 4242)) 4242 = Inr ([''hello'' @ nl] ! i)
      \<and> [''hello'' @ nl] ! i \<noteq> []"
  proof (intro allI impI)
    fix i :: nat assume "i < length [''hello'' @ nl]"
    then have "i = 0" by simp
    with r0 show "readline os_sh (?h2 @ replicate i (Readline 4242)) 4242 = Inr ([''hello'' @ nl] ! i)
      \<and> [''hello'' @ nl] ! i \<noteq> []"
      by blast
  qed
  have eof: "readline os_sh (?h2 @ replicate (length [''hello'' @ nl]) (Readline 4242)) 4242 = Inr []"
    by code_simp
  have rc: "show_int (wait os_sh (?h2 @ replicate (Suc (length [''hello'' @ nl])) (Readline 4242)) 4242)
      = ''0''"
    by code_simp
  have fuel: "Suc (Suc (length [''hello'' @ nl])) + 0 = 3" by simp
  have strip: "map (\<lambda>l. rstrip l @ nl) [''hello'' @ nl] = [''hello'' @ nl]"
    by code_simp
  from stream_ends_with_marker [OF sp lines eof, of 0]
  have "\<exists>s'. drain os_sh 3 (Start ''echo hello'' ''/home'') (st_empty, [])
        = Some ([''hello'' @ nl, nl @ ''[Process completed with exit code: 0]'' @ nl], s')
      \<and> \<not> dict_has 4242 (processes (fst s'))"
    unfolding rc fuel strip by simp
  with sp show ?thesis by blast
qed


section \<open>Kill all\<close>

lemma dict_del_keys: "dict_keys (dict_del k d) = filter (\<lambda>x. x \<noteq> k) (dict_keys d)"
  by (induction d) (simp_all add: dict_del_def dict_keys_def)

















section \<open>Stop by name\<close>










section \<open>Strings and dictionaries\<close>

text \<open>
  \<open>contains\<close> is the substring test, and the two updates of a dictionary keep its keys
  distinct: a registry built from the empty one by the program has distinct keys.
\<close>

lemma contains_sublist: "contains needle s = sublist needle s"
  by (induction s) (simp_all add: sublist_Cons_right)

lemma contains_iff: "contains needle s = (\<exists>before after. s = before @ needle @ after)"
  by (simp add: contains_sublist sublist_def)

lemma dict_set_distinct:
  "distinct (dict_keys d) \<Longrightarrow> distinct (dict_keys (dict_set k v d))"
  unfolding dict_set_keys by (simp add: dict_has_def dict_keys_def)

lemma dict_del_distinct: "distinct (dict_keys d) \<Longrightarrow> distinct (dict_keys (dict_del k d))"
  by (simp add: dict_del_keys)

text \<open>
  Beyond ASCII, within the code points of a character: the next-line and no-break space
  characters are stripped like a line feed, and an accented capital is lower-cased.
\<close>

lemma rstrip_latin1_spaces: "rstrip (''a'' @ [CHR 0x85, CHR 0xA0, CHR 0x0A]) = ''a''"
  by code_simp

lemma lower_latin1: "lower (''PY'' @ [CHR 0xC9]) = ''py'' @ [CHR 0xE9]"
  by code_simp


end
